theory Spec2Isabelle
  imports Main "HOL-Library.Sublist"
begin

section \<open>Data model\<close>

text \<open>
  \<^verbatim>\<open>filter_sentences\<close> uses two things of each element of \<^verbatim>\<open>sentences\<close>:
  \<^verbatim>\<open>len(sentence)\<close>, which Python guarantees to be a non-negative integer, and
  \<^verbatim>\<open>str(sentence)\<close>. A sentence is modelled by exactly these two observations.
  The source puts no relation between them.
\<close>

record sentence =
  sent_len :: nat
  sent_str :: string

text \<open>The only exception raised by the source itself (line 108).\<close>

datatype error = AssertionError string

section \<open>\<^verbatim>\<open>filter_sentences\<close> (lines 22 to 44)\<close>

text \<open>Lines 28 and 29: the sequence the loop iterates over.\<close>

definition iteration_order :: "bool \<Rightarrow> sentence list \<Rightarrow> sentence list" where
  "iteration_order src sentences = (if src then rev sentences else sentences)"

text \<open>
  The \<^verbatim>\<open>for\<close> loop of lines 33 to 39 over the remaining sentences, with the loop state
  \<^verbatim>\<open>(lines, word_count)\<close>. \<^verbatim>\<open>max_words\<close> is a Python integer (\<^verbatim>\<open>type=int\<close> on the
  command line), so it may be negative. The \<^verbatim>\<open>else: break\<close> branch returns the state
  without looking at the rest.
\<close>

fun loop :: "sentence list \<Rightarrow> int \<Rightarrow> string list \<times> int \<Rightarrow> string list \<times> int" where
  "loop [] max_words (lines, word_count) = (lines, word_count)"
| "loop (s # rest) max_words (lines, word_count) =
     (let num_words = int (sent_len s) in
      if word_count = 0 \<or> word_count + num_words \<le> max_words
      then loop rest max_words (lines @ [sent_str s], word_count + num_words)
      else (lines, word_count))"

text \<open>Python's \<^verbatim>\<open>sep.join(lines)\<close>.\<close>

fun join :: "string \<Rightarrow> string list \<Rightarrow> string" where
  "join sep [] = []"
| "join sep [x] = x"
| "join sep (x # y # zs) = x @ sep @ join sep (y # zs)"

text \<open>
  The list \<^verbatim>\<open>lines\<close> as it stands at line 44: lines 28 to 42, with both reversals.
\<close>

definition selected_lines :: "sentence list \<Rightarrow> int \<Rightarrow> bool \<Rightarrow> string list" where
  "selected_lines sentences max_words src =
     (let lines = fst (loop (iteration_order src sentences) max_words ([], 0))
      in if src then rev lines else lines)"

definition filter_sentences :: "sentence list \<Rightarrow> int \<Rightarrow> bool \<Rightarrow> string" where
  "filter_sentences sentences max_words src = join '' '' (selected_lines sentences max_words src)"

text \<open>
  The source keeps only the strings. The sentences they came from, in the order in which
  the loop appended them, are the first \<^verbatim>\<open>len(lines)\<close> sentences of the iteration order
  (lemma \<open>selected_lines_selection\<close> below); the word total of a run of sentences is the sum
  of their lengths.
\<close>

definition selection :: "sentence list \<Rightarrow> int \<Rightarrow> bool \<Rightarrow> sentence list" where
  "selection sentences max_words src =
     take (length (selected_lines sentences max_words src)) (iteration_order src sentences)"

definition word_total :: "sentence list \<Rightarrow> int" where
  "word_total ss = sum_list (map (\<lambda>s. int (sent_len s)) ss)"

text \<open>
  Lines 41 and 42 reverse the list once more when \<^verbatim>\<open>src\<close> is set, so that the result is in
  the order of the document: the sentences of the result, first to last as they are
  returned (lemma \<open>selected_lines_selected_sentences\<close> below).
\<close>

definition selected_sentences :: "sentence list \<Rightarrow> int \<Rightarrow> bool \<Rightarrow> sentence list" where
  "selected_sentences sentences max_words src =
     (let sel = selection sentences max_words src
      in if src then rev sel else sel)"

subsection \<open>The loop as the specification words it\<close>

text \<open>
  The specification's step 3 tests whether the selection is still empty, where the source
  tests \<^verbatim>\<open>word_count == 0\<close>. This second definition follows the specification's words and
  is only compared with \<open>loop\<close>.
\<close>

fun spec_loop :: "sentence list \<Rightarrow> int \<Rightarrow> string list \<times> int \<Rightarrow> string list \<times> int" where
  "spec_loop [] max_words (selected, running) = (selected, running)"
| "spec_loop (c # rest) max_words (selected, running) =
     (if selected = [] \<or> running + int (sent_len c) \<le> max_words
      then spec_loop rest max_words (selected @ [sent_str c], running + int (sent_len c))
      else (selected, running))"

subsection \<open>Executions of the function as a relation\<close>

text \<open>
  The same statements once more, as a big-step execution relation: one rule for the
  exhausted iterator, one for each branch of the \<^verbatim>\<open>if\<close>. A relation does not presuppose
  that an execution ends with a result, or with only one.
\<close>

inductive loop_run :: "sentence list \<Rightarrow> int \<Rightarrow> string list \<times> int \<Rightarrow> string list \<times> int \<Rightarrow> bool" where
  exhausted: "loop_run [] max_words st st"
| appended: "word_count = 0 \<or> word_count + int (sent_len s) \<le> max_words \<Longrightarrow>
     loop_run rest max_words (lines @ [sent_str s], word_count + int (sent_len s)) st' \<Longrightarrow>
     loop_run (s # rest) max_words (lines, word_count) st'"
| broken: "\<not> (word_count = 0 \<or> word_count + int (sent_len s) \<le> max_words) \<Longrightarrow>
     loop_run (s # rest) max_words (lines, word_count) (lines, word_count)"

inductive filter_run :: "sentence list \<Rightarrow> int \<Rightarrow> bool \<Rightarrow> string \<Rightarrow> bool" where
  returned: "loop_run (iteration_order src sentences) max_words ([], 0) (lines, word_count) \<Longrightarrow>
     filter_run sentences max_words src (join '' '' (if src then rev lines else lines))"

section \<open>The row loop of \<^verbatim>\<open>main\<close> (lines 99 to 120)\<close>

text \<open>
  \<^verbatim>\<open>"{}".format(len(row))\<close>: the decimal digits of a non-negative integer.
\<close>

fun string_of_nat :: "nat \<Rightarrow> string" where
  "string_of_nat n =
     (if n < 10 then [''0123456789'' ! n]
      else string_of_nat (n div 10) @ [''0123456789'' ! (n mod 10)])"

declare string_of_nat.simps [simp del]

text \<open>
  The body of the \<^verbatim>\<open>for row in reader\<close> loop. A row is the list of its fields. The
  segmenter \<^verbatim>\<open>nlp\<close> is loaded from outside the repository and is a parameter:
  \<open>nlp text\<close> stands for the sentences of \<^verbatim>\<open>nlp(text).sents\<close>.
\<close>

definition main_row :: "(string \<Rightarrow> sentence list) \<Rightarrow> int \<Rightarrow> string list \<Rightarrow> error + string list" where
  "main_row nlp maxWords row =
     (if \<not> length row = 2
      then Inl (AssertionError (''Expected 2 cols (src, tgt). Received: '' @ string_of_nat (length row)))
      else
        let src = row ! 0;
            src_filt = filter_sentences (nlp src) maxWords True;
            tgt = row ! 1;
            tgt_filt = filter_sentences (nlp tgt) maxWords False
        in Inr [src_filt, tgt_filt])"

text \<open>
  The loop over the rows left in the reader. The state is the list of rows written to the
  output file so far; an exception ends the loop and what was written stays written.
\<close>

fun main_rows :: "(string \<Rightarrow> sentence list) \<Rightarrow> int \<Rightarrow> string list list \<Rightarrow> string list list
    \<Rightarrow> string list list \<times> error option" where
  "main_rows nlp maxWords [] written = (written, None)"
| "main_rows nlp maxWords (row # reader) written =
     (case main_row nlp maxWords row of
        Inl e \<Rightarrow> (written, Some e)
      | Inr out \<Rightarrow> main_rows nlp maxWords reader (written @ [out]))"

text \<open>
  Lines 99 to 120: with \<^verbatim>\<open>hasheader\<close>, the first row is taken from the reader unchecked and
  written when it is truthy (a non-empty list).
\<close>

definition main_body :: "(string \<Rightarrow> sentence list) \<Rightarrow> int \<Rightarrow> bool \<Rightarrow> string list list
    \<Rightarrow> string list list \<times> error option" where
  "main_body nlp maxWords hasheader reader =
     (if hasheader then
        (case reader of
           [] \<Rightarrow> main_rows nlp maxWords [] []
         | headers # rest \<Rightarrow> main_rows nlp maxWords rest (if headers \<noteq> [] then [headers] else []))
      else main_rows nlp maxWords reader [])"

section \<open>Example data\<close>

text \<open>The three sentences of the specification's first two scenarios, three words each.\<close>

definition cat_sentences :: "sentence list" where
  "cat_sentences =
     [\<lparr>sent_len = 3, sent_str = ''The cat sat.''\<rparr>,
      \<lparr>sent_len = 3, sent_str = ''It was happy.''\<rparr>,
      \<lparr>sent_len = 3, sent_str = ''Birds flew by.''\<rparr>]"

section \<open>Facts about the loop\<close>

lemma word_total_simps [simp]:
  "word_total [] = 0"
  "word_total (s # ss) = int (sent_len s) + word_total ss"
  by (simp_all add: word_total_def)

lemma word_total_nonneg: "0 \<le> word_total ss"
  by (induction ss) simp_all

lemma word_total_append [simp]: "word_total (xs @ ys) = word_total xs + word_total ys"
  by (induction xs) simp_all

lemma word_total_rev [simp]: "word_total (rev ss) = word_total ss"
  by (induction ss) simp_all

text \<open>
  What a run of the loop does: it appends the strings of the first \<open>k\<close> remaining sentences
  and adds their lengths, and each of the \<open>k\<close> passed the test of line 35.
\<close>

lemma loop_prefix:
  "\<exists>k\<le>length ss.
     loop ss mw (lines, wc) = (lines @ map sent_str (take k ss), wc + word_total (take k ss)) \<and>
     (\<forall>j<k. wc + word_total (take j ss) = 0 \<or> wc + word_total (take (Suc j) ss) \<le> mw)"
proof (induction ss arbitrary: lines wc)
  case Nil
  show ?case by simp
next
  case (Cons s rest)
  let ?n = "int (sent_len s)"
  show ?case
  proof (cases "wc = 0 \<or> wc + ?n \<le> mw")
    case True
    from Cons.IH [of "lines @ [sent_str s]" "wc + ?n"]
    obtain k where k: "k \<le> length rest"
      and run: "loop rest mw (lines @ [sent_str s], wc + ?n) =
          ((lines @ [sent_str s]) @ map sent_str (take k rest), (wc + ?n) + word_total (take k rest))"
      and fits: "\<forall>j<k. (wc + ?n) + word_total (take j rest) = 0 \<or>
          (wc + ?n) + word_total (take (Suc j) rest) \<le> mw"
      by blast
    have "\<forall>j<Suc k. wc + word_total (take j (s # rest)) = 0 \<or>
        wc + word_total (take (Suc j) (s # rest)) \<le> mw"
    proof (intro allI impI)
      fix j assume "j < Suc k"
      show "wc + word_total (take j (s # rest)) = 0 \<or>
        wc + word_total (take (Suc j) (s # rest)) \<le> mw"
      proof (cases j)
        case 0
        with True show ?thesis by simp
      next
        case (Suc i)
        with \<open>j < Suc k\<close> have "i < k" by simp
        with fits Suc show ?thesis by (simp add: add.assoc)
      qed
    qed
    moreover have "loop (s # rest) mw (lines, wc) =
        (lines @ map sent_str (take (Suc k) (s # rest)), wc + word_total (take (Suc k) (s # rest)))"
      using True run by (simp add: Let_def)
    moreover have "Suc k \<le> length (s # rest)" using k by simp
    ultimately show ?thesis by blast
  next
    case False
    then have "loop (s # rest) mw (lines, wc) =
        (lines @ map sent_str (take 0 (s # rest)), wc + word_total (take 0 (s # rest)))"
      by (simp add: Let_def)
    then show ?thesis by (intro exI [of _ 0]) simp
  qed
qed

lemma loop_start:
  obtains k where "k \<le> length it"
    and "fst (loop it mw ([], 0)) = map sent_str (take k it)"
    and "\<forall>j<k. word_total (take j it) = 0 \<or> word_total (take (Suc j) it) \<le> mw"
  using loop_prefix [of it mw "[]" 0] by auto

lemma length_selected_lines:
  "length (selected_lines sentences mw src) =
     length (fst (loop (iteration_order src sentences) mw ([], 0)))"
  by (simp add: selected_lines_def Let_def)

lemma selection_loop:
  "fst (loop (iteration_order src sentences) mw ([], 0)) = map sent_str (selection sentences mw src)"
proof -
  obtain k where k: "k \<le> length (iteration_order src sentences)"
    and run: "fst (loop (iteration_order src sentences) mw ([], 0)) =
      map sent_str (take k (iteration_order src sentences))"
    by (rule loop_start)
  from run k have "length (fst (loop (iteration_order src sentences) mw ([], 0))) = k"
    by simp
  then have "selection sentences mw src = take k (iteration_order src sentences)"
    by (simp add: selection_def length_selected_lines)
  with run show ?thesis by simp
qed

lemma selected_lines_selection:
  "selected_lines sentences mw src =
     (if src then rev (map sent_str (selection sentences mw src))
      else map sent_str (selection sentences mw src))"
  by (simp add: selected_lines_def Let_def selection_loop)

lemma length_selection:
  "length (selection sentences mw src) = length (selected_lines sentences mw src)"
  by (simp add: selected_lines_selection)

lemma selection_fits:
  assumes j: "j < length (selection sentences mw src)"
  shows "word_total (take j (selection sentences mw src)) = 0 \<or>
     word_total (take (Suc j) (selection sentences mw src)) \<le> mw"
proof -
  let ?it = "iteration_order src sentences"
  obtain k where k: "k \<le> length ?it"
    and run: "fst (loop ?it mw ([], 0)) = map sent_str (take k ?it)"
    and fits: "\<forall>j<k. word_total (take j ?it) = 0 \<or> word_total (take (Suc j) ?it) \<le> mw"
    by (rule loop_start)
  from run k have "length (fst (loop ?it mw ([], 0))) = k"
    by simp
  then have sel: "selection sentences mw src = take k ?it"
    by (simp add: selection_def length_selected_lines)
  with j k have "j < k" by simp
  with fits have "word_total (take j ?it) = 0 \<or> word_total (take (Suc j) ?it) \<le> mw"
    by simp
  moreover from \<open>j < k\<close> have "take j (take k ?it) = take j ?it"
    "take (Suc j) (take k ?it) = take (Suc j) ?it"
    by (simp_all add: min_def)
  ultimately show ?thesis using sel by simp
qed

lemma set_selection: "set (selection sentences mw src) \<subseteq> set sentences"
  by (auto simp add: selection_def iteration_order_def dest: in_set_takeD)

lemma word_total_pos:
  assumes "\<forall>s\<in>set ss. 0 < sent_len s" and "ss \<noteq> []"
  shows "0 < word_total ss"
  using assms by (cases ss) (simp_all add: add_pos_nonneg word_total_nonneg)

lemma last_step:
  assumes more: "1 < length (selection sentences mw src)"
  shows "word_total (butlast (selection sentences mw src)) = 0 \<or>
    word_total (selection sentences mw src) \<le> mw"
proof -
  let ?sel = "selection sentences mw src"
  from more have j: "length ?sel - 1 < length ?sel" by simp
  have "take (Suc (length ?sel - 1)) ?sel = ?sel" using more by simp
  moreover have "take (length ?sel - 1) ?sel = butlast ?sel" by (simp add: butlast_conv_take)
  ultimately show ?thesis using selection_fits [OF j] by simp
qed

lemma before_last_nonneg:
  assumes nonneg: "0 \<le> mw" and more: "1 < length (selection sentences mw src)"
  shows "word_total (butlast (selection sentences mw src)) \<le> mw"
proof -
  let ?sel = "selection sentences mw src"
  from last_step [OF more]
  consider (zero) "word_total (butlast ?sel) = 0" | (fits) "word_total ?sel \<le> mw"
    by auto
  then show ?thesis
  proof cases
    case zero
    with nonneg show ?thesis by simp
  next
    case fits
    from more have "?sel = butlast ?sel @ [last ?sel]"
      by (cases ?sel rule: rev_cases) auto
    then have "word_total ?sel = word_total (butlast ?sel) + int (sent_len (last ?sel))"
      by (metis word_total_append word_total_simps add.right_neutral)
    with fits show ?thesis by simp
  qed
qed

text \<open>
  The sentences of the result: their strings are the returned lines, and they are a run
  of the document, from its start without \<^verbatim>\<open>src\<close> and up to its end with it.
\<close>

lemma selected_lines_selected_sentences:
  "selected_lines sentences mw src = map sent_str (selected_sentences sentences mw src)"
  by (cases src) (simp_all add: selected_sentences_def selected_lines_selection Let_def rev_map)

lemma selected_sentences_span:
  "selected_sentences sentences mw src =
     (if src then drop (length sentences - length (selected_lines sentences mw src)) sentences
      else take (length (selected_lines sentences mw src)) sentences)"
  by (simp add: selected_sentences_def selection_def iteration_order_def Let_def rev_take)

lemma butlast_selection_pos:
  assumes pos: "\<forall>s\<in>set sentences. 0 < sent_len s"
    and more: "1 < length (selection sentences mw src)"
  shows "0 < word_total (butlast (selection sentences mw src))"
proof -
  let ?sel = "selection sentences mw src"
  have "set (butlast ?sel) \<subseteq> set sentences"
    using set_selection [of sentences mw src] by (blast dest: in_set_butlastD)
  with pos have "\<forall>s\<in>set (butlast ?sel). 0 < sent_len s" by blast
  moreover from more have "butlast ?sel \<noteq> []"
    by (cases ?sel rule: rev_cases) auto
  ultimately show ?thesis by (rule word_total_pos)
qed

lemma loop_all:
  "wc + word_total ss \<le> mw \<Longrightarrow>
     loop ss mw (lines, wc) = (lines @ map sent_str ss, wc + word_total ss)"
proof (induction ss arbitrary: lines wc)
  case Nil
  show ?case by simp
next
  case (Cons s rest)
  have "0 \<le> word_total rest" by (rule word_total_nonneg)
  with Cons.prems have "wc + int (sent_len s) \<le> mw" by simp
  moreover from Cons.prems have "(wc + int (sent_len s)) + word_total rest \<le> mw" by simp
  ultimately show ?case using Cons.IH [of "wc + int (sent_len s)" "lines @ [sent_str s]"]
    by (simp add: Let_def)
qed

lemma join_prefix: "prefix x (join sep (x # ys))"
  by (cases ys) simp_all

lemma join_suffix: "suffix x (join sep (ys @ [x]))"
proof (induction ys)
  case Nil
  show ?case by simp
next
  case (Cons y ys)
  obtain z zs where "ys @ [x] = z # zs" by (cases "ys @ [x]") auto
  with Cons.IH show ?case by (simp add: suffix_appendI)
qed

lemma loop_first: "\<exists>more. fst (loop (c # rest) mw ([], 0)) = sent_str c # more"
  using loop_prefix [of rest mw "[sent_str c]" "int (sent_len c)"] by (auto simp add: Let_def)

lemma loop_spec_loop:
  assumes "\<forall>s\<in>set ss. 0 < sent_len s" and "lines = [] \<longleftrightarrow> wc = 0" and "0 \<le> wc"
  shows "loop ss mw (lines, wc) = spec_loop ss mw (lines, wc)"
  using assms
proof (induction ss arbitrary: lines wc)
  case Nil
  show ?case by simp
next
  case (Cons s rest)
  from Cons.prems have "0 < sent_len s" by simp
  with Cons.prems have "lines @ [sent_str s] = [] \<longleftrightarrow> wc + int (sent_len s) = 0"
    and "0 \<le> wc + int (sent_len s)" by simp_all
  with Cons.prems have "loop rest mw (lines @ [sent_str s], wc + int (sent_len s)) =
      spec_loop rest mw (lines @ [sent_str s], wc + int (sent_len s))"
    by (intro Cons.IH) simp_all
  with Cons.prems(2) show ?case by (simp add: Let_def)
qed

lemma loop_run_loop: "loop_run ss mw st (loop ss mw st)"
proof (induction ss arbitrary: st)
  case Nil
  show ?case by (cases st) (simp add: loop_run.exhausted)
next
  case (Cons s rest)
  obtain lines wc where st: "st = (lines, wc)" by (cases st)
  show ?case
  proof (cases "wc = 0 \<or> wc + int (sent_len s) \<le> mw")
    case True
    with Cons.IH [of "(lines @ [sent_str s], wc + int (sent_len s))"] st show ?thesis
      by (simp add: Let_def loop_run.appended)
  next
    case False
    with st show ?thesis by (simp add: Let_def loop_run.broken)
  qed
qed

lemma loop_run_unique: "loop_run ss mw st st' \<Longrightarrow> st' = loop ss mw st"
proof (induction rule: loop_run.induct)
  case (exhausted mw st)
  show ?case by (cases st) simp
next
  case (appended wc s mw rest lines st')
  then show ?case by (simp add: Let_def)
next
  case (broken wc s mw lines rest)
  then show ?case by (simp add: Let_def)
qed

lemma filter_run_iff:
  "filter_run sentences mw src out \<longleftrightarrow> out = filter_sentences sentences mw src"
proof
  assume "filter_run sentences mw src out"
  then obtain lines wc where "loop_run (iteration_order src sentences) mw ([], 0) (lines, wc)"
    and out: "out = join '' '' (if src then rev lines else lines)"
    by (auto elim: filter_run.cases)
  then have "loop (iteration_order src sentences) mw ([], 0) = (lines, wc)"
    using loop_run_unique [of "iteration_order src sentences" mw "([], 0)" "(lines, wc)"] by simp
  with out show "out = filter_sentences sentences mw src"
    by (simp add: filter_sentences_def selected_lines_def Let_def)
next
  assume out: "out = filter_sentences sentences mw src"
  obtain lines wc where run: "loop (iteration_order src sentences) mw ([], 0) = (lines, wc)"
    by (cases "loop (iteration_order src sentences) mw ([], 0)")
  have "loop_run (iteration_order src sentences) mw ([], 0) (loop (iteration_order src sentences) mw ([], 0))"
    by (rule loop_run_loop)
  with run have "filter_run sentences mw src (join '' '' (if src then rev lines else lines))"
    by (simp add: filter_run.returned)
  with run out show "filter_run sentences mw src out"
    by (simp add: filter_sentences_def selected_lines_def Let_def)
qed

section \<open>Facts about the row loop\<close>

lemma main_rows_valid:
  "\<forall>r\<in>set rows. length r = 2 \<Longrightarrow>
     main_rows nlp mw (rows @ rest) written =
       main_rows nlp mw rest
         (written @ map (\<lambda>row. [filter_sentences (nlp (row ! 0)) mw True,
                                 filter_sentences (nlp (row ! 1)) mw False]) rows)"
  by (induction rows arbitrary: written) (simp_all add: main_row_def Let_def)

lemma digit_inj:
  assumes "a < 10" and "b < 10" and "''0123456789'' ! a = ''0123456789'' ! b"
  shows "a = b"
proof -
  have "distinct ''0123456789''" by simp
  moreover have "a < length ''0123456789''" "b < length ''0123456789''" using assms by simp_all
  ultimately show ?thesis using assms(3) by (simp only: nth_eq_iff_index_eq)
qed

lemma string_of_nat_nonempty: "string_of_nat n \<noteq> []"
  by (subst string_of_nat.simps) simp

lemma string_of_nat_inj: "string_of_nat m = string_of_nat n \<Longrightarrow> m = n"
proof (induction m arbitrary: n rule: string_of_nat.induct)
  case (1 m)
  show ?case
  proof (cases "m < 10")
    case small_m: True
    show ?thesis
    proof (cases "n < 10")
      case True
      with small_m "1.prems" show ?thesis
        by (simp add: string_of_nat.simps [of m] string_of_nat.simps [of n] digit_inj)
    next
      case False
      with small_m "1.prems" string_of_nat_nonempty [of "n div 10"] show ?thesis
        by (simp add: string_of_nat.simps [of m] string_of_nat.simps [of n] Cons_eq_append_conv)
    qed
  next
    case big_m: False
    show ?thesis
    proof (cases "n < 10")
      case True
      with big_m "1.prems" string_of_nat_nonempty [of "m div 10"] show ?thesis
        by (simp add: string_of_nat.simps [of m] string_of_nat.simps [of n] append_eq_Cons_conv)
    next
      case False
      with big_m "1.prems" have "string_of_nat (m div 10) = string_of_nat (n div 10)"
        and "''0123456789'' ! (m mod 10) = ''0123456789'' ! (n mod 10)"
        by (simp_all add: string_of_nat.simps [of m] string_of_nat.simps [of n])
      with big_m "1.IH" have "m div 10 = n div 10" and "m mod 10 = n mod 10"
        by (simp_all add: digit_inj)
      then show ?thesis by (metis div_mult_mod_eq)
    qed
  qed
qed

section \<open>The selection is never empty\<close>

text \<open>
  C1, as amended. For a non-empty sentence sequence, any budget and either direction, at
  least one line is selected, and the returned string contains the string of the first
  sentence of the iteration order (the last sentence of the document when \<^verbatim>\<open>src\<close> is
  set, the first otherwise). The returned string is non-empty when that sentence's string
  is; a single sentence is returned in full, whatever its length and the budget.
\<close>

theorem filter_sentences_never_empty:
  assumes "sentences \<noteq> []"
  shows "selected_lines sentences max_words src \<noteq> [] \<and>
    sublist (sent_str (hd (iteration_order src sentences))) (filter_sentences sentences max_words src) \<and>
    (sent_str (hd (iteration_order src sentences)) \<noteq> [] \<longrightarrow>
       filter_sentences sentences max_words src \<noteq> []) \<and>
    (length sentences = 1 \<longrightarrow> filter_sentences sentences max_words src = sent_str (hd sentences))"
proof -
  let ?it = "iteration_order src sentences"
  let ?x = "sent_str (hd ?it)"
  from assms obtain c rest where it: "?it = c # rest"
    by (cases ?it) (auto simp add: iteration_order_def split: if_splits)
  then obtain more where run: "fst (loop ?it max_words ([], 0)) = ?x # more"
    using loop_first [of c rest max_words] by auto
  then have lines: "selected_lines sentences max_words src = (if src then rev more @ [?x] else ?x # more)"
    by (simp add: selected_lines_def Let_def)
  then have nonempty: "selected_lines sentences max_words src \<noteq> []" by simp
  have sub: "sublist ?x (filter_sentences sentences max_words src)"
    using lines join_prefix [of ?x "'' ''" more] join_suffix [of ?x "'' ''" "rev more"]
    by (cases src) (simp_all add: filter_sentences_def prefix_imp_sublist suffix_imp_sublist)
  then have out: "?x \<noteq> [] \<longrightarrow> filter_sentences sentences max_words src \<noteq> []"
    by auto
  have single: "length sentences = 1 \<longrightarrow> filter_sentences sentences max_words src = sent_str (hd sentences)"
  proof
    assume "length sentences = 1"
    then obtain s where "sentences = [s]" by (cases sentences) auto
    then show "filter_sentences sentences max_words src = sent_str (hd sentences)"
      by (simp add: filter_sentences_def selected_lines_def iteration_order_def Let_def)
  qed
  from nonempty sub out single show ?thesis by simp
qed

theorem filter_sentences_never_empty_witness:
  "[\<lparr>sent_len = 30, sent_str = ''Averylongsentencewithmanywordsexceedingbudget''\<rparr>] \<noteq> [] \<and>
   filter_sentences [\<lparr>sent_len = 30, sent_str = ''Averylongsentencewithmanywordsexceedingbudget''\<rparr>] 5 True =
     ''Averylongsentencewithmanywordsexceedingbudget''"
  using filter_sentences_never_empty [of "[\<lparr>sent_len = 30, sent_str = ''Averylongsentencewithmanywordsexceedingbudget''\<rparr>]" 5 True]
  by simp

text \<open>
  As the claim is worded, with a non-empty string promised for every non-empty sequence, it
  fails on a sentence whose string is empty: the Python call
  \<^verbatim>\<open>filter_sentences([""], 5, False)\<close> returns the empty string.
\<close>

theorem filter_sentences_never_empty_counterexample:
  "[\<lparr>sent_len = 0, sent_str = ''''\<rparr>] \<noteq> [] \<and> (0::int) \<le> 5 \<and>
   filter_sentences [\<lparr>sent_len = 0, sent_str = ''''\<rparr>] 5 False = ''''"
  by (simp add: filter_sentences_def selected_lines_def iteration_order_def Let_def)

section \<open>The test of the greedy loop\<close>

text \<open>
  C2, as amended. When every sentence has at least one word, the loop of the source and
  the loop of the specification coincide on every budget and in either direction: a
  candidate is appended exactly when the selection is still empty or the running count
  plus its length does not exceed \<^verbatim>\<open>max_words\<close>, and the first candidate that fails the
  test ends the loop.
\<close>

theorem loop_refines_spec_loop:
  assumes "\<forall>s\<in>set sentences. 0 < sent_len s"
  shows "loop (iteration_order src sentences) max_words ([], 0) =
    spec_loop (iteration_order src sentences) max_words ([], 0)"
proof -
  from assms have "\<forall>s\<in>set (iteration_order src sentences). 0 < sent_len s"
    by (simp add: iteration_order_def)
  then show ?thesis by (intro loop_spec_loop) simp_all
qed

theorem loop_refines_spec_loop_witness:
  "loop (iteration_order True cat_sentences) 5 ([], 0) =
     spec_loop (iteration_order True cat_sentences) 5 ([], 0) \<and>
   loop (iteration_order True cat_sentences) 5 ([], 0) = ([''Birds flew by.''], 3)"
proof -
  have pos: "\<forall>s\<in>set cat_sentences. 0 < sent_len s" by (simp add: cat_sentences_def)
  show ?thesis using loop_refines_spec_loop [OF pos, of True 5]
    by (simp add: cat_sentences_def iteration_order_def Let_def)
qed

text \<open>
  Without the restriction the two differ. The source tests \<^verbatim>\<open>word_count == 0\<close>, which
  still holds after a sentence of no words was appended: on
  \<^verbatim>\<open>filter_sentences(["", "abcdefghij"], 5, False)\<close> the second sentence, of length 10, is
  appended although the selection is not empty and 10 exceeds 5.
\<close>

theorem loop_refines_spec_loop_counterexample:
  "loop [\<lparr>sent_len = 0, sent_str = ''''\<rparr>, \<lparr>sent_len = 10, sent_str = ''abcdefghij''\<rparr>] 5 ([], 0) =
     (['''', ''abcdefghij''], 10) \<and>
   spec_loop [\<lparr>sent_len = 0, sent_str = ''''\<rparr>, \<lparr>sent_len = 10, sent_str = ''abcdefghij''\<rparr>] 5 ([], 0) =
     ([''''], 0)"
  by (simp add: Let_def)

section \<open>The budget\<close>

text \<open>
  C3, as amended. Let the budget \<^verbatim>\<open>max_words\<close> be at least 0, as the contract requires
  of it. If the result holds more than one sentence, then the word total of all its
  sentences but the one the loop appended last is at most \<^verbatim>\<open>max_words\<close>. The sentence
  appended last is the last one of the result without \<^verbatim>\<open>src\<close> and the first one with it:
  in the order of the document the bound holds for the first \<open>k - 1\<close> sentences of the
  result without \<^verbatim>\<open>src\<close>, and for its last \<open>k - 1\<close> sentences with it.
\<close>

theorem selection_budget_before_last:
  assumes nonneg: "0 \<le> max_words"
    and more: "1 < length (selected_sentences sentences max_words src)"
  shows "word_total (butlast (selection sentences max_words src)) \<le> max_words \<and>
    word_total (if src then tl (selected_sentences sentences max_words src)
                else butlast (selected_sentences sentences max_words src)) \<le> max_words"
proof -
  let ?sel = "selection sentences max_words src"
  from more have "1 < length ?sel"
    by (cases src) (simp_all add: selected_sentences_def Let_def)
  with nonneg have bound: "word_total (butlast ?sel) \<le> max_words"
    by (rule before_last_nonneg)
  have "tl (rev ?sel) = rev (butlast ?sel)"
    by (cases ?sel rule: rev_cases) simp_all
  then have "word_total (tl (rev ?sel)) = word_total (butlast ?sel)"
    by simp
  with bound show ?thesis
    by (cases src) (simp_all add: selected_sentences_def Let_def)
qed

theorem selection_budget_before_last_witness:
  "selected_sentences cat_sentences 6 True =
     [\<lparr>sent_len = 3, sent_str = ''It was happy.''\<rparr>, \<lparr>sent_len = 3, sent_str = ''Birds flew by.''\<rparr>] \<and>
   selection cat_sentences 6 True =
     [\<lparr>sent_len = 3, sent_str = ''Birds flew by.''\<rparr>, \<lparr>sent_len = 3, sent_str = ''It was happy.''\<rparr>] \<and>
   word_total (butlast (selection cat_sentences 6 True)) \<le> 6 \<and>
   word_total (tl (selected_sentences cat_sentences 6 True)) \<le> 6"
proof -
  have nonneg: "(0::int) \<le> 6" by simp
  have sel: "selection cat_sentences 6 True =
     [\<lparr>sent_len = 3, sent_str = ''Birds flew by.''\<rparr>, \<lparr>sent_len = 3, sent_str = ''It was happy.''\<rparr>]"
    by (simp add: selection_def selected_lines_def iteration_order_def cat_sentences_def Let_def)
  then have doc: "selected_sentences cat_sentences 6 True =
     [\<lparr>sent_len = 3, sent_str = ''It was happy.''\<rparr>, \<lparr>sent_len = 3, sent_str = ''Birds flew by.''\<rparr>]"
    by (simp add: selected_sentences_def)
  then have more: "1 < length (selected_sentences cat_sentences 6 True)" by simp
  from selection_budget_before_last [OF nonneg more] doc sel show ?thesis by simp
qed

text \<open>
  As stated, for the first \<open>k - 1\<close> sentences of the result in either direction, the claim
  fails with \<^verbatim>\<open>src\<close>. A sentence of 10 words followed by a sentence of no words, with a
  budget of 5: \<^verbatim>\<open>filter_sentences\<close> starts from the end, appends the sentence of no words,
  finds \<^verbatim>\<open>word_count == 0\<close> still true and appends the sentence of 10 words as well. The
  result holds both sentences, and the first of them alone has 10 words, more than the
  budget.
\<close>

theorem selection_budget_before_last_counterexample:
  "filter_sentences [\<lparr>sent_len = 10, sent_str = ''abcdefghij''\<rparr>, \<lparr>sent_len = 0, sent_str = ''''\<rparr>] 5 True =
     ''abcdefghij '' \<and>
   selected_sentences [\<lparr>sent_len = 10, sent_str = ''abcdefghij''\<rparr>, \<lparr>sent_len = 0, sent_str = ''''\<rparr>] 5 True =
     [\<lparr>sent_len = 10, sent_str = ''abcdefghij''\<rparr>, \<lparr>sent_len = 0, sent_str = ''''\<rparr>] \<and>
   word_total (butlast (selected_sentences
     [\<lparr>sent_len = 10, sent_str = ''abcdefghij''\<rparr>, \<lparr>sent_len = 0, sent_str = ''''\<rparr>] 5 True)) = 10 \<and>
   \<not> (10::int) \<le> 5"
proof -
  have lines: "selected_lines [\<lparr>sent_len = 10, sent_str = ''abcdefghij''\<rparr>, \<lparr>sent_len = 0, sent_str = ''''\<rparr>] 5 True =
      [''abcdefghij'', '''']"
    by (simp add: selected_lines_def iteration_order_def Let_def)
  then show ?thesis
    by (simp add: filter_sentences_def selected_sentences_def selection_def iteration_order_def)
qed

text \<open>
  C10: when every sentence has a positive word count and more than one sentence is
  selected, the word total of all the selected sentences, the last included, is at most
  \<^verbatim>\<open>max_words\<close>, for every integer budget and either direction.
\<close>

theorem selection_budget_all_positive:
  assumes pos: "\<forall>s\<in>set sentences. 0 < sent_len s"
    and more: "1 < length (selection sentences max_words src)"
  shows "word_total (selection sentences max_words src) \<le> max_words"
  using last_step [OF more] butlast_selection_pos [OF pos more] by auto

theorem selection_budget_all_positive_witness:
  "selection cat_sentences 6 True =
     [\<lparr>sent_len = 3, sent_str = ''Birds flew by.''\<rparr>, \<lparr>sent_len = 3, sent_str = ''It was happy.''\<rparr>] \<and>
   word_total (selection cat_sentences 6 True) \<le> 6"
proof -
  have pos: "\<forall>s\<in>set cat_sentences. 0 < sent_len s" by (simp add: cat_sentences_def)
  have sel: "selection cat_sentences 6 True =
     [\<lparr>sent_len = 3, sent_str = ''Birds flew by.''\<rparr>, \<lparr>sent_len = 3, sent_str = ''It was happy.''\<rparr>]"
    by (simp add: selection_def selected_lines_def iteration_order_def cat_sentences_def Let_def)
  then have more: "1 < length (selection cat_sentences 6 True)" by simp
  from selection_budget_all_positive [OF pos more] sel show ?thesis by simp
qed

section \<open>Direction and order\<close>

text \<open>
  C4: without \<^verbatim>\<open>src\<close> the selected lines are the strings of a prefix of the sentence
  sequence, with \<^verbatim>\<open>src\<close> those of a suffix, in both cases in the order of the document,
  and the returned string joins exactly these lines.
\<close>

theorem filter_sentences_direction:
  "selected_lines sentences max_words False =
      map sent_str (take (length (selected_lines sentences max_words False)) sentences) \<and>
   selected_lines sentences max_words True =
      map sent_str (drop (length sentences - length (selected_lines sentences max_words True)) sentences) \<and>
   length (selected_lines sentences max_words src) \<le> length sentences \<and>
   filter_sentences sentences max_words src = join '' '' (selected_lines sentences max_words src)"
proof -
  have head: "selected_lines sentences max_words False =
      map sent_str (take (length (selected_lines sentences max_words False)) sentences)"
    using selected_lines_selection [of sentences max_words False]
    by (simp add: selection_def iteration_order_def)
  have "selected_lines sentences max_words True =
      map sent_str (rev (take (length (selected_lines sentences max_words True)) (rev sentences)))"
    using selected_lines_selection [of sentences max_words True]
    by (simp add: selection_def iteration_order_def rev_map)
  then have tail: "selected_lines sentences max_words True =
      map sent_str (drop (length sentences - length (selected_lines sentences max_words True)) sentences)"
    by (simp add: rev_take)
  have "length (selection sentences max_words src) \<le> length (iteration_order src sentences)"
    by (simp add: selection_def)
  then have len: "length (selected_lines sentences max_words src) \<le> length sentences"
    by (cases src) (simp_all add: length_selection iteration_order_def)
  from head tail len show ?thesis by (simp add: filter_sentences_def)
qed

theorem filter_sentences_direction_witness:
  "selected_lines cat_sentences 6 False = [''The cat sat.'', ''It was happy.''] \<and>
   selected_lines cat_sentences 6 True = [''It was happy.'', ''Birds flew by.''] \<and>
   filter_sentences cat_sentences 6 True = ''It was happy. Birds flew by.''"
proof -
  have "length (selected_lines cat_sentences 6 False) = 2"
    and "length (selected_lines cat_sentences 6 True) = 2"
    by (simp_all add: selected_lines_def iteration_order_def cat_sentences_def Let_def)
  with filter_sentences_direction [of cat_sentences 6 True] show ?thesis
    by (simp add: cat_sentences_def)
qed

section \<open>Saturation\<close>

text \<open>
  C5: when \<^verbatim>\<open>max_words\<close> is at least the word total of all sentences, the result is the
  join of all the sentences' strings with a single space, in the order of the document,
  in either direction.
\<close>

theorem filter_sentences_saturation:
  assumes "word_total sentences \<le> max_words"
  shows "filter_sentences sentences max_words src = join '' '' (map sent_str sentences)"
proof -
  from assms have "0 + word_total (iteration_order src sentences) \<le> max_words"
    by (simp add: iteration_order_def)
  then have "fst (loop (iteration_order src sentences) max_words ([], 0)) =
      map sent_str (iteration_order src sentences)"
    by (simp add: loop_all)
  then have "selected_lines sentences max_words src = map sent_str sentences"
    by (simp add: selected_lines_def Let_def iteration_order_def rev_map)
  then show ?thesis by (simp add: filter_sentences_def)
qed

theorem filter_sentences_saturation_witness:
  "word_total cat_sentences \<le> 20 \<and>
   filter_sentences cat_sentences 20 True = ''The cat sat. It was happy. Birds flew by.''"
proof -
  have fits: "word_total cat_sentences \<le> 20" by (simp add: cat_sentences_def)
  from filter_sentences_saturation [OF fits, of True] fits show ?thesis by (simp add: cat_sentences_def)
qed

section \<open>Empty input\<close>

text \<open>
  C6: for every budget and either direction, filtering the empty sentence sequence returns
  the empty string.
\<close>

theorem filter_sentences_empty: "filter_sentences [] max_words src = ''''"
  by (simp add: filter_sentences_def selected_lines_def iteration_order_def)

theorem filter_sentences_empty_witness: "filter_sentences [] 10 True = ''''"
  using filter_sentences_empty [of 10 True] by simp

section \<open>Totality\<close>

text \<open>
  C9: for every sentence sequence, every budget and either direction, the function has an
  execution, every execution returns the same string, and that string is the value of
  \<open>filter_sentences\<close>. No rule of the execution relation raises.
\<close>

theorem filter_sentences_total:
  "(\<exists>!out. filter_run sentences max_words src out) \<and>
   filter_run sentences max_words src (filter_sentences sentences max_words src)"
  by (simp add: filter_run_iff)

theorem filter_sentences_total_witness:
  "filter_run cat_sentences 5 True ''Birds flew by.''"
proof -
  have "filter_sentences cat_sentences 5 True = ''Birds flew by.''"
    by (simp add: filter_sentences_def selected_lines_def iteration_order_def cat_sentences_def Let_def)
  with filter_sentences_total [of cat_sentences 5 True] show ?thesis by simp
qed

section \<open>The rows\<close>

text \<open>
  C7: a row whose number of columns is not 2 raises the \<^verbatim>\<open>AssertionError\<close> of line 108,
  whose message ends with the decimal digits of the number of columns observed, and no
  other number has these digits. When the rows before it all have 2 columns, the loop ends
  there with that error: the rows before it are written, the row itself and the rows after
  it are not. A row of exactly 2 columns is never rejected.
\<close>

theorem main_column_check:
  "(length row \<noteq> 2 \<longrightarrow>
      main_row nlp maxWords row =
        Inl (AssertionError (''Expected 2 cols (src, tgt). Received: '' @ string_of_nat (length row))) \<and>
      ((\<forall>r\<in>set before. length r = 2) \<longrightarrow>
        main_rows nlp maxWords (before @ row # after) written =
          (written @ map (\<lambda>row. [filter_sentences (nlp (row ! 0)) maxWords True,
                                  filter_sentences (nlp (row ! 1)) maxWords False]) before,
           Some (AssertionError (''Expected 2 cols (src, tgt). Received: '' @ string_of_nat (length row)))))) \<and>
   (length row = 2 \<longrightarrow> (\<exists>out. main_row nlp maxWords row = Inr out)) \<and>
   (\<forall>n. string_of_nat n = string_of_nat (length row) \<longrightarrow> n = length row)"
proof -
  let ?e = "AssertionError (''Expected 2 cols (src, tgt). Received: '' @ string_of_nat (length row))"
  have rejected: "main_row nlp maxWords row = Inl ?e" if "length row \<noteq> 2"
    using that by (simp add: main_row_def)
  have stopped: "main_rows nlp maxWords (before @ row # after) written =
      (written @ map (\<lambda>row. [filter_sentences (nlp (row ! 0)) maxWords True,
                              filter_sentences (nlp (row ! 1)) maxWords False]) before,
       Some ?e)"
    if "length row \<noteq> 2" and "\<forall>r\<in>set before. length r = 2"
    using that rejected by (simp add: main_rows_valid)
  have accepted: "\<exists>out. main_row nlp maxWords row = Inr out" if "length row = 2"
    using that by (simp add: main_row_def Let_def)
  have named: "\<forall>n. string_of_nat n = string_of_nat (length row) \<longrightarrow> n = length row"
    by (blast dest: string_of_nat_inj)
  from rejected stopped accepted named show ?thesis by blast
qed

theorem main_column_check_witness:
  "main_row (\<lambda>t. [\<lparr>sent_len = 1, sent_str = t\<rparr>]) 5 [''only one field''] =
     Inl (AssertionError ''Expected 2 cols (src, tgt). Received: 1'') \<and>
   main_rows (\<lambda>t. [\<lparr>sent_len = 1, sent_str = t\<rparr>]) 5
       [[''a'', ''b''], [''only one field''], [''c'', ''d'']] [] =
     ([[''a'', ''b'']], Some (AssertionError ''Expected 2 cols (src, tgt). Received: 1'')) \<and>
   (\<exists>out. main_row (\<lambda>t. [\<lparr>sent_len = 1, sent_str = t\<rparr>]) 5 [''a'', ''b''] = Inr out)"
proof -
  have digits: "string_of_nat 1 = ''1''" by (simp add: string_of_nat.simps)
  have one: "length [''only one field''] \<noteq> 2" and two: "length [''a'', ''b''] = 2"
    and before: "\<forall>r\<in>set [[''a'', ''b'']]. length r = 2"
    by simp_all
  have filtered: "filter_sentences [\<lparr>sent_len = n, sent_str = t\<rparr>] 5 src = t" for n t src
    by (simp add: filter_sentences_def selected_lines_def iteration_order_def Let_def)
  from main_column_check [of "[''only one field'']" "\<lambda>t. [\<lparr>sent_len = 1, sent_str = t\<rparr>]" 5
      "[[''a'', ''b'']]" "[[''c'', ''d'']]" "[]", THEN conjunct1]
    main_column_check [of "[''a'', ''b'']" "\<lambda>t. [\<lparr>sent_len = 1, sent_str = t\<rparr>]" 5,
      THEN conjunct2, THEN conjunct1]
  show ?thesis using one two before digits filtered by simp
qed

text \<open>
  C8: when every row has 2 columns, the loop writes, for each row and in the order of the
  rows, the record of the first column filtered with \<^verbatim>\<open>src=True\<close> and the second column
  filtered with \<^verbatim>\<open>src=False\<close>, both with the same \<^verbatim>\<open>maxWords\<close>, and raises nothing; with
  or without a header row before them.
\<close>

theorem main_rows_filtered:
  assumes "\<forall>r\<in>set rows. length r = 2"
  shows "main_rows nlp maxWords rows written =
      (written @ map (\<lambda>row. [filter_sentences (nlp (row ! 0)) maxWords True,
                              filter_sentences (nlp (row ! 1)) maxWords False]) rows,
       None) \<and>
    main_body nlp maxWords False rows =
      (map (\<lambda>row. [filter_sentences (nlp (row ! 0)) maxWords True,
                    filter_sentences (nlp (row ! 1)) maxWords False]) rows,
       None) \<and>
    main_body nlp maxWords True (headers # rows) =
      ((if headers \<noteq> [] then [headers] else []) @
         map (\<lambda>row. [filter_sentences (nlp (row ! 0)) maxWords True,
                      filter_sentences (nlp (row ! 1)) maxWords False]) rows,
       None)"
  using main_rows_valid [OF assms, of nlp maxWords "[]"] by (simp add: main_body_def)

theorem main_rows_filtered_witness:
  "main_rows (\<lambda>t. [\<lparr>sent_len = 1, sent_str = t\<rparr>]) 5 [[''a'', ''b''], [''c'', ''d'']] [] =
     ([[''a'', ''b''], [''c'', ''d'']], None)"
proof -
  have valid: "\<forall>r\<in>set [[''a'', ''b''], [''c'', ''d'']]. length r = 2" by simp
  have filtered: "filter_sentences [\<lparr>sent_len = n, sent_str = t\<rparr>] 5 src = t" for n t src
    by (simp add: filter_sentences_def selected_lines_def iteration_order_def Let_def)
  from main_rows_filtered [OF valid, of "\<lambda>t. [\<lparr>sent_len = 1, sent_str = t\<rparr>]" 5 "[]"]
  show ?thesis by (simp add: filtered)
qed

end
